theory Spec2Isabelle
  imports Main "HOL-Library.Word"
begin

unbundle bit_operations_syntax

section \<open>Collective Ed25519 signatures: the package cosi\<close>

text \<open>
  A shallow embedding of \<^verbatim>\<open>ed25519/cosi/cosi.go\<close>. Byte slices and byte arrays are
  lists of 8-bit words. A Go function that mutates the object it is given a pointer to
  takes the object and returns its new value; a function that can panic returns a sum
  whose left side is the panic. Pointer arguments and receivers are taken to be non-nil.
\<close>

type_synonym byte = "8 word"

subsection \<open>Go's built-in copy\<close>

text \<open>
  \<^verbatim>\<open>copy(dst, src)\<close> overwrites the first \<open>min (len dst) (len src)\<close> elements of
  \<open>dst\<close>; the value is the new content of \<open>dst\<close>. \<open>copy_slice a lo hi src\<close> is
  \<^verbatim>\<open>copy(a[lo:hi], src)\<close> and gives the new content of \<open>a\<close>.
\<close>

definition copy_bytes :: "byte list \<Rightarrow> byte list \<Rightarrow> byte list" where
  "copy_bytes dst src = take (length dst) src @ drop (length src) dst"

definition copy_slice :: "byte list \<Rightarrow> nat \<Rightarrow> nat \<Rightarrow> byte list \<Rightarrow> byte list" where
  "copy_slice a lo hi src =
     take lo a @ copy_bytes (take (hi - lo) (drop lo a)) src @ drop hi a"

subsection \<open>The collaborators: scalars, points and the hash\<close>

text \<open>
  The order of the prime-order subgroup, and scalars as little-endian byte strings.
\<close>

definition ell :: nat where
  "ell = 2 ^ 252 + 27742317777372353535851937790883648493"

fun le_nat :: "byte list \<Rightarrow> nat" where
  "le_nat [] = 0"
| "le_nat (b # bs) = unat b + 256 * le_nat bs"

fun le_bytes :: "nat \<Rightarrow> nat \<Rightarrow> byte list" where
  "le_bytes 0 v = []"
| "le_bytes (Suc n) v = of_nat (v mod 256) # le_bytes n (v div 256)"

text \<open>
  Modelled from the spec: \<^verbatim>\<open>edwards25519.ScReduce\<close> and \<^verbatim>\<open>edwards25519.ScMulAdd\<close>
  belong to the package \<^verbatim>\<open>ed25519/internal/edwards25519\<close>, which is not among the
  sources. The spec gives their contract: ScReduce reduces a 64-byte buffer modulo
  \<open>\<ell>\<close>, and \<open>ScMulAdd(a,b,c) = a\<cdot>b + c mod \<ell>\<close>, both with a 32-byte little-endian
  result.
\<close>

definition ScReduce :: "byte list \<Rightarrow> byte list" where
  "ScReduce s = le_bytes 32 (le_nat s mod ell)"

definition ScMulAdd :: "byte list \<Rightarrow> byte list \<Rightarrow> byte list \<Rightarrow> byte list" where
  "ScMulAdd a b c = le_bytes 32 ((le_nat a * le_nat b + le_nat c) mod ell)"

text \<open>
  Modelled from the spec: \<^verbatim>\<open>edwards25519.ExtendedGroupElement\<close> is likewise missing.
  A group element is modelled by the curve point it stands for, in any type of the class
  \<open>ab_group_add\<close>: \<^verbatim>\<open>Zero\<close> is \<open>0\<close>, \<^verbatim>\<open>Add\<close> is \<open>+\<close>, \<^verbatim>\<open>Sub\<close> is \<open>-\<close>, and
  negating the X and T coordinates with \<^verbatim>\<open>FeNeg\<close> is the negation of the point.
  The remaining operations of the primitive are parameters, collected in a record:
  decoding (\<open>None\<close> where \<^verbatim>\<open>FromBytes\<close> returns false), encoding, and the
  double-scalar multiplication \<open>a\<cdot>A + b\<cdot>B\<close>, whose projective result is again a point.
\<close>

record 'p edwards25519 =
  FromBytes :: "byte list \<Rightarrow> 'p option"
  ToBytes :: "'p \<Rightarrow> byte list"
  GeDoubleScalarMultVartime :: "byte list \<Rightarrow> 'p \<Rightarrow> byte list \<Rightarrow> 'p"

text \<open>
  \<^verbatim>\<open>ToBytes\<close> fills a \<^verbatim>\<open>[32]byte\<close>. SHA-512 (Go's \<^verbatim>\<open>crypto/sha512\<close>) is a parameter
  of the functions that hash; its digest has 64 bytes.
\<close>

type_synonym hash = "byte list \<Rightarrow> byte list"


definition wf_hash :: "hash \<Rightarrow> bool" where
  "wf_hash H = (\<forall>x. length (H x) = 64)"

subsection \<open>Panics\<close>

datatype panic =
    BadPrivateKeyLength nat
  | BadAggregateRLength nat
  | SecretUsedTwice
  | IndexOutOfRange
  | NegativeBitIndex

subsection \<open>Mask bits and policies\<close>

type_synonym MaskBit = bool

definition Enabled :: MaskBit where
  "Enabled = False"

definition Disabled :: MaskBit where
  "Disabled = True"

text \<open>
  The interface \<^verbatim>\<open>Policy\<close> has the two implementations of the package and any other
  one; the \<^verbatim>\<open>Check\<close> of a custom policy is a predicate on the keys, the mask and the
  cached aggregate of the set it is given. The mask, a non-negative \<^verbatim>\<open>big.Int\<close>, is a
  natural number.
\<close>

datatype 'p Policy =
    fullPolicy
  | thresPolicy int
  | customPolicy "'p list \<Rightarrow> nat \<Rightarrow> 'p \<Rightarrow> bool"

record 'p Cosigners =
  keys :: "'p list"
  mask :: nat
  aggr :: 'p
  policy :: "'p Policy"

subsection \<open>Secrets and Cosign\<close>

record Secret =
  reduced :: "byte list"
  valid :: bool

definition clamp :: "byte list \<Rightarrow> byte list" where
  "clamp k =
     (let k = k[0 := k ! 0 AND 248];
          k = k[31 := k ! 31 AND 63];
          k = k[31 := k ! 31 OR 64]
      in k)"

definition Cosign ::
  "hash \<Rightarrow> byte list \<Rightarrow> Secret \<Rightarrow> byte list \<Rightarrow> byte list \<Rightarrow> byte list
     \<Rightarrow> Secret \<times> (panic + byte list)" where
  "Cosign sha512 privateKey secret message aggregateK aggregateR =
     (if length privateKey \<noteq> 64 then
        (secret, Inl (BadPrivateKeyLength (length privateKey)))
      else if length aggregateR \<noteq> 32 then
        (secret, Inl (BadAggregateRLength (length aggregateR)))
      else if \<not> valid secret then
        (secret, Inl SecretUsedTwice)
      else
        let digest1 = sha512 (take 32 privateKey);
            expandedSecretKey = clamp (copy_bytes (replicate 32 0) digest1);
            hramDigest = sha512 (aggregateR @ aggregateK @ message);
            hramDigestReduced = ScReduce hramDigest;
            s = ScMulAdd hramDigestReduced expandedSecretKey (reduced secret)
        in (secret\<lparr>reduced := replicate 32 0, valid := False\<rparr>, Inr s))"

subsection \<open>The set of cosigners\<close>

definition CountTotal :: "'p Cosigners \<Rightarrow> nat" where
  "CountTotal cos = length (keys cos)"

definition MaskBit :: "'p Cosigners \<Rightarrow> nat \<Rightarrow> MaskBit" where
  "MaskBit cos signer = bit (mask cos) signer"

definition CountEnabled :: "'p Cosigners \<Rightarrow> nat" where
  "CountEnabled cos =
     fold (\<lambda>i count. if MaskBit cos i = Enabled then count + 1 else count)
       [0..<length (keys cos)] 0"

fun Check :: "'p Policy \<Rightarrow> 'p Cosigners \<Rightarrow> bool" where
  "Check fullPolicy cosigners = (CountEnabled cosigners = CountTotal cosigners)"
| "Check (thresPolicy t) cosigners = (int (CountEnabled cosigners) \<ge> t)"
| "Check (customPolicy f) cosigners = f (keys cosigners) (mask cosigners) (aggr cosigners)"

definition ThresholdPolicy :: "int \<Rightarrow> 'p Policy" where
  "ThresholdPolicy threshold = thresPolicy threshold"

text \<open>
  One turn of the loop of \<^verbatim>\<open>SetMask\<close>, on the pair of the mask and the aggregate.
\<close>

definition SetMask_step ::
  "'p::ab_group_add list \<Rightarrow> byte list \<Rightarrow> nat \<Rightarrow> nat \<times> 'p \<Rightarrow> nat \<times> 'p" where
  "SetMask_step ks m i st =
     (if i div 8 < length m \<and> (m ! (i div 8)) AND push_bit (i mod 8) 1 \<noteq> 0
      then (set_bit i (fst st), snd st)
      else (fst st, snd st + ks ! i))"

definition SetMask :: "'p::ab_group_add Cosigners \<Rightarrow> byte list \<Rightarrow> 'p Cosigners" where
  "SetMask cos m =
     (let st = fold (SetMask_step (keys cos) m) [0..<length (keys cos)] (0, 0)
      in cos\<lparr>mask := fst st, aggr := snd st\<rparr>)"

definition MaskLen :: "'p Cosigners \<Rightarrow> nat" where
  "MaskLen cos = (length (keys cos) + 7) div 8"

text \<open>One turn of the loop of \<^verbatim>\<open>Mask\<close>, on the slice being filled.\<close>

definition Mask_step :: "nat \<Rightarrow> nat \<Rightarrow> byte list \<Rightarrow> byte list" where
  "Mask_step msk i m =
     (if bit msk i then m[i div 8 := m ! (i div 8) OR push_bit (i mod 8) 1] else m)"

definition Mask :: "'p Cosigners \<Rightarrow> byte list" where
  "Mask cos =
     fold (Mask_step (mask cos)) [0..<length (keys cos)]
       (replicate ((length (keys cos) + 7) div 8) 0)"

text \<open>
  \<^verbatim>\<open>SetMaskBit\<close> takes a Go \<^verbatim>\<open>int\<close>. \<^verbatim>\<open>big.Int.Bit\<close> panics on a negative index, and
  \<^verbatim>\<open>cos.keys[signer]\<close> panics beyond the list, after the bit has been written.
\<close>

definition SetMaskBit ::
  "'p::ab_group_add Cosigners \<Rightarrow> int \<Rightarrow> MaskBit \<Rightarrow> 'p Cosigners \<times> (panic + unit)" where
  "SetMaskBit cos signer b =
     (if signer < 0 then (cos, Inl NegativeBitIndex)
      else
        let i = nat signer in
        if b = Disabled then
          if \<not> bit (mask cos) i then
            let cos = cos\<lparr>mask := set_bit i (mask cos)\<rparr> in
            if i < length (keys cos)
            then (cos\<lparr>aggr := aggr cos - keys cos ! i\<rparr>, Inr ())
            else (cos, Inl IndexOutOfRange)
          else (cos, Inr ())
        else
          if bit (mask cos) i then
            let cos = cos\<lparr>mask := unset_bit i (mask cos)\<rparr> in
            if i < length (keys cos)
            then (cos\<lparr>aggr := aggr cos + keys cos ! i\<rparr>, Inr ())
            else (cos, Inl IndexOutOfRange)
          else (cos, Inr ()))"

text \<open>A sequence of calls of \<^verbatim>\<open>SetMaskBit\<close>; a panic ends it.\<close>

fun SetMaskBits ::
  "'p::ab_group_add Cosigners \<Rightarrow> (int \<times> MaskBit) list \<Rightarrow> 'p Cosigners \<times> (panic + unit)" where
  "SetMaskBits cos [] = (cos, Inr ())"
| "SetMaskBits cos ((signer, b) # ops) =
     (case SetMaskBit cos signer b of
        (cos', Inl p) \<Rightarrow> (cos', Inl p)
      | (cos', Inr _) \<Rightarrow> SetMaskBits cos' ops)"

text \<open>
  \<^verbatim>\<open>NewCosigners\<close> decodes every key through the one buffer \<^verbatim>\<open>publicKeyBytes\<close>, and
  returns nil at the first key that does not decode.
\<close>

fun NewCosigners_loop ::
  "'p edwards25519 \<Rightarrow> byte list list \<Rightarrow> byte list \<Rightarrow> 'p list \<Rightarrow> 'p list option" where
  "NewCosigners_loop E [] publicKeyBytes ks = Some ks"
| "NewCosigners_loop E (publicKey # rest) publicKeyBytes ks =
     (let publicKeyBytes = copy_bytes publicKeyBytes publicKey in
      case FromBytes E publicKeyBytes of
        None \<Rightarrow> None
      | Some k \<Rightarrow> NewCosigners_loop E rest publicKeyBytes (ks @ [k]))"

definition NewCosigners ::
  "'p::ab_group_add edwards25519 \<Rightarrow> byte list list \<Rightarrow> 'p Cosigners option" where
  "NewCosigners E publicKeys =
     (case NewCosigners_loop E publicKeys (replicate 32 0) [] of
        None \<Rightarrow> None
      | Some ks \<Rightarrow>
          let cos = \<lparr>keys = ks, mask = 0, aggr = 0, policy = fullPolicy\<rparr>;
              cos = SetMask cos []
          in Some (cos\<lparr>policy := fullPolicy\<rparr>))"

definition AggregatePublicKey :: "'p edwards25519 \<Rightarrow> 'p Cosigners \<Rightarrow> byte list" where
  "AggregatePublicKey E cos = ToBytes E (aggr cos)"

subsection \<open>The leader's aggregation\<close>



definition scOne :: "byte list" where
  "scOne = 1 # replicate 31 0"

fun AggregateSignature_loop ::
  "'p Cosigners \<Rightarrow> byte list list \<Rightarrow> nat list \<Rightarrow> byte list \<Rightarrow> byte list
     \<Rightarrow> panic + byte list option" where
  "AggregateSignature_loop cos sigParts [] aggS indivS = Inr (Some aggS)"
| "AggregateSignature_loop cos sigParts (i # is) aggS indivS =
     (if MaskBit cos i = Disabled then
        AggregateSignature_loop cos sigParts is aggS indivS
      else if \<not> i < length sigParts then Inl IndexOutOfRange
      else if length (sigParts ! i) \<noteq> 32 then Inr None
      else
        let indivS = copy_bytes indivS (sigParts ! i);
            aggS = ScMulAdd aggS scOne indivS
        in AggregateSignature_loop cos sigParts is aggS indivS)"

definition AggregateSignature ::
  "'p Cosigners \<Rightarrow> byte list \<Rightarrow> byte list list \<Rightarrow> panic + byte list option" where
  "AggregateSignature cos aggregateR sigParts =
     (if length aggregateR \<noteq> 32 then Inl (BadAggregateRLength (length aggregateR))
      else
        case AggregateSignature_loop cos sigParts [0..<length (keys cos)]
               (replicate 32 0) (replicate 32 0) of
          Inl p \<Rightarrow> Inl p
        | Inr None \<Rightarrow> Inr None
        | Inr (Some aggS) \<Rightarrow>
            let m = Mask cos;
                cosigSize = 64 + length m;
                signature = replicate cosigSize 0;
                signature = copy_slice signature 0 cosigSize aggregateR;
                signature = copy_slice signature 32 64 aggS;
                signature = copy_slice signature 64 cosigSize m
            in Inr (Some signature))"

subsection \<open>Verification\<close>

text \<open>
  \<^verbatim>\<open>verify\<close> has the pointer receiver \<open>cos\<close> and receives the group element \<open>sigA\<close> by
  value. An \<^verbatim>\<open>ExtendedGroupElement\<close> is a struct of four field elements, each an array of
  ten 32-bit integers, and Go copies structs and arrays at a call: the two calls of
  \<^verbatim>\<open>FeNeg\<close> write to the function's own copy, here the bound variable \<open>sigA\<close>. The set
  is returned beside the result, as the caller finds it afterwards.
  \<^verbatim>\<open>subtle.ConstantTimeCompare\<close> is 1 exactly for equal slices.
\<close>

definition verify ::
  "hash \<Rightarrow> 'p::ab_group_add edwards25519 \<Rightarrow> 'p Cosigners \<Rightarrow> byte list \<Rightarrow> byte list
     \<Rightarrow> byte list \<Rightarrow> byte list \<Rightarrow> 'p \<Rightarrow> 'p Cosigners \<times> bool" where
  "verify sha512 E cos message aggR sigR sigS sigA =
     (if length sigR \<noteq> 32 \<or> length sigS \<noteq> 32 \<or> (sigS ! 31) AND 224 \<noteq> 0 then
        (cos, False)
      else
        let aggK = ToBytes E (aggr cos);
            digest = sha512 (aggR @ aggK @ message);
            hReduced = ScReduce digest;
            sigA = - sigA;
            b = copy_bytes (replicate 32 0) sigS;
            projR = GeDoubleScalarMultVartime E hReduced sigA b;
            checkR = ToBytes E projR
        in (cos, sigR = checkR))"

definition VerifyPart ::
  "hash \<Rightarrow> 'p::ab_group_add edwards25519 \<Rightarrow> 'p Cosigners \<Rightarrow> byte list \<Rightarrow> byte list
     \<Rightarrow> int \<Rightarrow> byte list \<Rightarrow> byte list \<Rightarrow> 'p Cosigners \<times> (panic + bool)" where
  "VerifyPart sha512 E cos message aggR signer indR indS =
     (if signer < 0 \<or> \<not> nat signer < length (keys cos) then (cos, Inl IndexOutOfRange)
      else
        case verify sha512 E cos message aggR indR indS (keys cos ! nat signer) of
          (cos', ok) \<Rightarrow> (cos', Inr ok))"

definition Verify ::
  "hash \<Rightarrow> 'p::ab_group_add edwards25519 \<Rightarrow> 'p Cosigners \<Rightarrow> byte list \<Rightarrow> byte list
     \<Rightarrow> 'p Cosigners \<times> bool" where
  "Verify sha512 E cos message sig =
     (let cosigSize = 64 + MaskLen cos in
      if length sig \<noteq> cosigSize then (cos, False)
      else
        let cos = SetMask cos (drop 64 sig) in
        if \<not> Check (policy cos) cos then (cos, False)
        else verify sha512 E cos message (take 32 sig) (take 32 sig)
               (take 32 (drop 32 sig)) (aggr cos))"

definition SetPolicy :: "'p Cosigners \<Rightarrow> 'p Policy \<Rightarrow> 'p Cosigners" where
  "SetPolicy cos p = cos\<lparr>policy := p\<rparr>"

subsection \<open>The properties in the words of the specification\<close>

text \<open>
  Bit \<open>i\<close> of a packed mask: bit \<open>i mod 8\<close> of byte \<open>i div 8\<close>, and clear beyond the
  bytes given.
\<close>

definition disabled_in :: "byte list \<Rightarrow> nat \<Rightarrow> bool" where
  "disabled_in m i = (i div 8 < length m \<and> bit (m ! (i div 8)) (i mod 8))"



text \<open>The sum of the keys at the indices whose bit of the mask is clear.\<close>

definition enabled_sum :: "'p::ab_group_add list \<Rightarrow> nat \<Rightarrow> 'p" where
  "enabled_sum ks msk =
     sum_list (map ((!) ks) (filter (\<lambda>i. \<not> bit msk i) [0..<length ks]))"

text \<open>The invariant of the set: the cached aggregate is the sum of the enabled keys.\<close>

definition aggr_ok :: "'p::ab_group_add Cosigners \<Rightarrow> bool" where
  "aggr_ok cos = (aggr cos = enabled_sum (keys cos) (mask cos))"

subsection \<open>Sample parameters\<close>

text \<open>
  A total function with 64-byte results, to run the definitions on concrete inputs: the
  argument, cut or padded with zero bytes to 64 bytes.
\<close>

definition sample_hash :: hash where
  "sample_hash x = take 64 (x @ replicate 64 0)"

text \<open>
  A set of three cosigners over the integers, all enabled, and a primitive for it: a
  point is encoded by its residue in the first byte, and an encoding whose last byte is
  not zero does not decode.
\<close>

definition sample_cos :: "int Cosigners" where
  "sample_cos = \<lparr>keys = [3, 5, 7], mask = 0, aggr = 15, policy = fullPolicy\<rparr>"

definition sample_E :: "int edwards25519" where
  "sample_E =
     \<lparr>FromBytes = (\<lambda>b. if length b = 32 \<and> b ! 31 = 0 then Some (uint (b ! 0)) else None),
      ToBytes = (\<lambda>p. word_of_int p # replicate 31 0),
      GeDoubleScalarMultVartime = (\<lambda>a A b. uint (a ! 0) * A + uint (b ! 0))\<rparr>"

text \<open>The same three cosigners with the second one disabled.\<close>

definition sample_cos_absent :: "int Cosigners" where
  "sample_cos_absent = \<lparr>keys = [3, 5, 7], mask = 2, aggr = 10, policy = fullPolicy\<rparr>"

section \<open>Scalars and copies\<close>

lemma length_le_bytes [simp]: "length (le_bytes n v) = n"
  by (induction n arbitrary: v) simp_all

lemma le_nat_le_bytes: "v < 256 ^ n \<Longrightarrow> le_nat (le_bytes n v) = v"
proof (induction n arbitrary: v)
  case 0
  then show ?case by simp
next
  case (Suc n)
  have "v div 256 < 256 ^ n"
    using Suc.prems by (simp add: less_mult_imp_div_less mult.commute)
  then have "le_nat (le_bytes n (v div 256)) = v div 256"
    by (rule Suc.IH)
  moreover have "unat (of_nat (v mod 256) :: byte) = v mod 256"
    by (simp add: unat_of_nat)
  ultimately show ?case by simp
qed

lemma ell_pos: "0 < ell"
  by (simp add: ell_def)

lemma ell_less: "ell < 256 ^ 32"
  by (simp add: ell_def)

lemma le_nat_le_bytes_mod_ell [simp]: "le_nat (le_bytes 32 (v mod ell)) = v mod ell"
proof -
  have "v mod ell < ell" using ell_pos by simp
  then have "v mod ell < 256 ^ 32" using ell_less by linarith
  then show ?thesis by (rule le_nat_le_bytes)
qed

lemma copy_bytes_prefix:
  "length dst \<le> length src \<Longrightarrow> copy_bytes dst src = take (length dst) src"
  by (simp add: copy_bytes_def)

lemma copy_bytes_same_length: "length src = length dst \<Longrightarrow> copy_bytes dst src = src"
  by (simp add: copy_bytes_def)

lemma length_copy_bytes [simp]: "length (copy_bytes dst src) = length dst"
  by (simp add: copy_bytes_def)

lemma clamp_eq: "clamp k = k[0 := k ! 0 AND 248, 31 := (k ! 31 AND 63) OR 64]"
  by (cases "31 < length k") (simp_all add: clamp_def Let_def list_update_beyond)

lemma wf_sample_hash: "wf_hash sample_hash"
  by (auto simp: wf_hash_def sample_hash_def)

section \<open>The mask and the cached aggregate\<close>


lemma and_push_bit_1_iff: "(b AND 2 ^ k \<noteq> 0) = bit b k" for b :: byte
  by (simp add: and_exp_eq_0_iff_not_bit)

lemma SetMask_step_eq:
  "SetMask_step ks m i st =
     (if disabled_in m i then (set_bit i (fst st), snd st) else (fst st, snd st + ks ! i))"
  by (simp add: SetMask_step_def disabled_in_def and_push_bit_1_iff)

lemma fst_fold_SetMask:
  "bit (fst (fold (SetMask_step ks m) [0..<n] (0, 0))) i \<longleftrightarrow> i < n \<and> disabled_in m i"
proof (induction n)
  case 0
  then show ?case by simp
next
  case (Suc n)
  then show ?case
    by (auto simp: SetMask_step_eq bit_set_bit_iff less_Suc_eq)
qed

lemma snd_fold_SetMask:
  "snd (fold (SetMask_step ks m) [0..<n] (0, 0))
     = sum_list (map ((!) ks) (filter (\<lambda>i. \<not> disabled_in m i) [0..<n]))"
  by (induction n) (simp_all add: SetMask_step_eq)

lemma bit_mask_SetMask:
  "bit (mask (SetMask cos m)) i \<longleftrightarrow> i < length (keys cos) \<and> disabled_in m i"
  by (simp add: SetMask_def Let_def fst_fold_SetMask)

lemma keys_SetMask [simp]: "keys (SetMask cos m) = keys cos"
  by (simp add: SetMask_def Let_def)

lemma policy_SetMask [simp]: "policy (SetMask cos m) = policy cos"
  by (simp add: SetMask_def Let_def)

lemma aggr_SetMask:
  "aggr (SetMask cos m) = enabled_sum (keys cos) (mask (SetMask cos m))"
proof -
  have "filter (\<lambda>i. \<not> disabled_in m i) [0..<length (keys cos)]
      = filter (\<lambda>i. \<not> bit (mask (SetMask cos m)) i) [0..<length (keys cos)]"
    by (rule filter_cong) (simp_all add: bit_mask_SetMask)
  then show ?thesis
    by (simp add: enabled_sum_def) (simp add: SetMask_def Let_def snd_fold_SetMask)
qed

lemma enabled_sum_set:
  "enabled_sum ks msk = sum ((!) ks) {i. i < length ks \<and> \<not> bit msk i}"
proof -
  have "set (filter (\<lambda>i. \<not> bit msk i) [0..<length ks]) = {i. i < length ks \<and> \<not> bit msk i}"
    by auto
  moreover have "distinct (filter (\<lambda>i. \<not> bit msk i) [0..<length ks])"
    by simp
  ultimately show ?thesis
    unfolding enabled_sum_def by (metis sum_list_distinct_conv_sum_set)
qed

lemma enabled_sum_set_bit:
  assumes "i < length ks" and "\<not> bit msk i"
  shows "enabled_sum ks (set_bit i msk) = enabled_sum ks msk - ks ! i"
proof -
  have "{j. j < length ks \<and> \<not> bit (set_bit i msk) j} = {j. j < length ks \<and> \<not> bit msk j} - {i}"
    by (auto simp: bit_set_bit_iff)
  moreover have "finite {j. j < length ks \<and> \<not> bit msk j}" by simp
  moreover have "i \<in> {j. j < length ks \<and> \<not> bit msk j}" using assms by simp
  ultimately show ?thesis
    by (simp add: enabled_sum_set sum_diff1)
qed

lemma enabled_sum_unset_bit:
  assumes "i < length ks" and "bit msk i"
  shows "enabled_sum ks (unset_bit i msk) = enabled_sum ks msk + ks ! i"
proof -
  have "{j. j < length ks \<and> \<not> bit (unset_bit i msk) j}
      = insert i {j. j < length ks \<and> \<not> bit msk j}"
    using assms by (auto simp: bit_unset_bit_iff)
  moreover have "finite {j. j < length ks \<and> \<not> bit msk j}" by simp
  moreover have "i \<notin> {j. j < length ks \<and> \<not> bit msk j}" using assms by simp
  ultimately show ?thesis
    by (simp add: enabled_sum_set add.commute)
qed

lemma enabled_sum_cong:
  "(\<And>i. i < length ks \<Longrightarrow> bit m1 i = bit m2 i) \<Longrightarrow> enabled_sum ks m1 = enabled_sum ks m2"
  unfolding enabled_sum_def
  by (rule arg_cong [where f = "\<lambda>xs. sum_list (map ((!) ks) xs)"], rule filter_cong) simp_all

lemma SetMaskBit_aggr_ok:
  assumes "aggr_ok cos" and "SetMaskBit cos signer b = (cos', Inr u)"
  shows "aggr_ok cos' \<and> keys cos' = keys cos \<and> policy cos' = policy cos"
  using assms
  by (auto simp: SetMaskBit_def Let_def aggr_ok_def enabled_sum_set_bit enabled_sum_unset_bit
      split: if_splits)

lemma SetMaskBits_aggr_ok:
  "aggr_ok cos \<Longrightarrow> SetMaskBits cos ops = (cos', Inr u)
     \<Longrightarrow> aggr_ok cos' \<and> keys cos' = keys cos \<and> policy cos' = policy cos"
proof (induction ops arbitrary: cos)
  case Nil
  then show ?case by simp
next
  case (Cons a ops)
  obtain signer b where a: "a = (signer, b)" by (cases a)
  obtain c1 r1 where s: "SetMaskBit cos signer b = (c1, r1)" by (cases "SetMaskBit cos signer b")
  show ?case
  proof (cases r1)
    case (Inl p)
    with Cons.prems a s show ?thesis by simp
  next
    case (Inr v)
    with Cons.prems a s have rest: "SetMaskBits c1 ops = (cos', Inr u)" by simp
    from SetMaskBit_aggr_ok [OF Cons.prems(1)] s Inr
    have c1: "aggr_ok c1 \<and> keys c1 = keys cos \<and> policy c1 = policy cos" by simp
    with Cons.IH [OF _ rest] show ?thesis by simp
  qed
qed


lemma Mask_fold: "Mask cos = fold (Mask_step (mask cos)) [0..<length (keys cos)]
    (replicate ((length (keys cos) + 7) div 8) 0)"
  by (simp add: Mask_def)

lemma length_Mask_step [simp]: "length (Mask_step msk i m) = length m"
  by (simp add: Mask_step_def)

lemma length_fold_Mask_step [simp]: "length (fold (Mask_step msk) is m) = length m"
  by (induction "is" arbitrary: m) simp_all

lemma length_Mask [simp]: "length (Mask cos) = (length (keys cos) + 7) div 8"
  by (simp add: Mask_fold)

lemma index_split: "k < 8 \<Longrightarrow> (8 * j + k = n) = (j = n div 8 \<and> k = n mod 8)" for j k n :: nat
  by auto

lemma bit_Mask_step:
  assumes "n div 8 < length m" and "k < 8" and "j < length m"
  shows "bit (Mask_step msk n m ! j) k \<longleftrightarrow> bit (m ! j) k \<or> (8 * j + k = n \<and> bit msk n)"
  using assms
  by (auto simp: Mask_step_def nth_list_update bit_or_iff bit_exp_iff index_split)

lemma bit_fold_Mask_step:
  assumes "n \<le> 8 * L" and "j < L" and "k < 8"
  shows "bit (fold (Mask_step msk) [0..<n] (replicate L 0) ! j) k
           \<longleftrightarrow> 8 * j + k < n \<and> bit msk (8 * j + k)"
  using assms(1)
proof (induction n)
  case 0
  then show ?case using assms(2) by simp
next
  case (Suc n)
  have "n div 8 < L" using Suc.prems by (simp add: less_mult_imp_div_less mult.commute)
  then show ?case
    using Suc assms(2,3)
    by (auto simp: bit_Mask_step less_Suc_eq)
qed


lemma ceil8_bound: "n \<le> 8 * ((n + 7) div 8)" for n :: nat
proof -
  have "(n + 7) div 8 * 8 + (n + 7) mod 8 = n + 7" by simp
  moreover have "(n + 7) mod 8 < 8" by simp
  ultimately show ?thesis by linarith
qed

lemma div8_less_ceil8: "i < n \<Longrightarrow> i div 8 < (n + 7) div 8" for i n :: nat
proof -
  assume "i < n"
  then have "i < (n + 7) div 8 * 8" using ceil8_bound [of n] by linarith
  then show ?thesis by (rule less_mult_imp_div_less)
qed

lemma bit_Mask:
  assumes "j < (length (keys cos) + 7) div 8" and "k < 8"
  shows "bit (Mask cos ! j) k \<longleftrightarrow> 8 * j + k < length (keys cos) \<and> bit (mask cos) (8 * j + k)"
proof -
  have "length (keys cos) \<le> 8 * ((length (keys cos) + 7) div 8)"
    by (rule ceil8_bound)
  then show ?thesis
    using assms by (simp add: Mask_fold bit_fold_Mask_step)
qed

lemma disabled_in_Mask:
  assumes "i < length (keys cos)"
  shows "disabled_in (Mask cos) i \<longleftrightarrow> bit (mask cos) i"
proof -
  have "i div 8 < (length (keys cos) + 7) div 8"
    using assms by (rule div8_less_ceil8)
  moreover have "8 * (i div 8) + i mod 8 = i" by simp
  ultimately show ?thesis
    using assms by (simp add: disabled_in_def bit_Mask)
qed

lemma byte_eqI:
  fixes a b :: byte
  assumes "\<And>k. k < 8 \<Longrightarrow> bit a k = bit b k"
  shows "a = b"
proof (rule bit_eqI)
  fix k
  show "bit a k = bit b k"
  proof (cases "k < 8")
    case True
    then show ?thesis by (rule assms)
  next
    case False
    then have "\<not> bit a k" and "\<not> bit b k"
      by (auto dest: bit_imp_le_length)
    then show ?thesis by simp
  qed
qed

lemma Mask_SetMask_roundtrip:
  assumes "length m = (length (keys cos) + 7) div 8"
    and "\<And>i. length (keys cos) \<le> i \<Longrightarrow> \<not> disabled_in m i"
  shows "Mask (SetMask cos m) = m"
proof (rule nth_equalityI)
  show "length (Mask (SetMask cos m)) = length m"
    using assms(1) by simp
next
  fix j
  assume "j < length (Mask (SetMask cos m))"
  then have j: "j < (length (keys cos) + 7) div 8" by simp
  show "Mask (SetMask cos m) ! j = m ! j"
  proof (rule byte_eqI)
    fix k :: nat
    assume k: "k < 8"
    have d: "disabled_in m (8 * j + k) = bit (m ! j) k"
      using j k assms(1) by (simp add: disabled_in_def)
    have "bit (Mask (SetMask cos m) ! j) k
        \<longleftrightarrow> 8 * j + k < length (keys cos) \<and> disabled_in m (8 * j + k)"
      using j k by (auto simp: bit_Mask bit_mask_SetMask)
    also have "\<dots> \<longleftrightarrow> disabled_in m (8 * j + k)"
      using assms(2) [of "8 * j + k"] by (cases "8 * j + k < length (keys cos)") auto
    finally show "bit (Mask (SetMask cos m) ! j) k = bit (m ! j) k"
      using d by simp
  qed
qed

lemma disabled_in_append_zeros:
  "disabled_in (m @ replicate k 0) i = disabled_in m i"
  by (auto simp: disabled_in_def nth_append)

lemma SetMask_append_zeros: "SetMask cos (m @ replicate k 0) = SetMask cos m"
proof -
  have "SetMask_step (keys cos) (m @ replicate k 0) = SetMask_step (keys cos) m"
    by (intro ext) (simp add: SetMask_step_eq disabled_in_append_zeros)
  then show ?thesis by (simp add: SetMask_def)
qed

lemma SetMask_Mask_aggr:
  assumes "aggr_ok cos"
  shows "aggr (SetMask cos (Mask cos)) = aggr cos"
proof -
  have "enabled_sum (keys cos) (mask (SetMask cos (Mask cos))) = enabled_sum (keys cos) (mask cos)"
    by (rule enabled_sum_cong) (simp add: bit_mask_SetMask disabled_in_Mask)
  then show ?thesis
    using assms aggr_SetMask [of cos "Mask cos"] by (simp add: aggr_ok_def)
qed

section \<open>The invariant of the cached aggregate\<close>


lemma aggr_ok_update_policy [simp]: "aggr_ok (cos\<lparr>policy := p\<rparr>) = aggr_ok cos"
  by (simp add: aggr_ok_def)

lemma aggr_ok_SetMask: "aggr_ok (SetMask cos m)"
  by (simp add: aggr_ok_def aggr_SetMask)

lemma NewCosigners_aggr_ok: "NewCosigners E publicKeys = Some cos \<Longrightarrow> aggr_ok cos"
  by (auto simp: NewCosigners_def Let_def aggr_ok_SetMask split: option.splits)

lemma Mask_high_bits:
  assumes "length (keys cos) \<le> i"
  shows "\<not> disabled_in (Mask cos) i"
proof
  assume d: "disabled_in (Mask cos) i"
  then have "i div 8 < (length (keys cos) + 7) div 8"
    by (simp add: disabled_in_def)
  moreover have "i mod 8 < 8" by simp
  ultimately have "bit (Mask cos ! (i div 8)) (i mod 8)
      \<longleftrightarrow> 8 * (i div 8) + i mod 8 < length (keys cos) \<and> bit (mask cos) (8 * (i div 8) + i mod 8)"
    by (rule bit_Mask)
  with d assms show False by (simp add: disabled_in_def)
qed

lemma SetMask_keys_cong: "keys c1 = keys c2 \<Longrightarrow> aggr (SetMask c1 m) = aggr (SetMask c2 m)
    \<and> mask (SetMask c1 m) = mask (SetMask c2 m)"
  by (simp add: SetMask_def Let_def)

lemma Mask_cong: "keys c1 = keys c2 \<Longrightarrow> mask c1 = mask c2 \<Longrightarrow> Mask c1 = Mask c2"
  by (simp add: Mask_def)

text \<open>
  C1. The cached aggregate is the sum of the keys whose mask bit is clear: after
  SetMask, after NewCosigners, and after every call of SetMaskBit that returns. After
  any sequence of calls of SetMaskBit that return, from any state in which the
  invariant holds, the cached aggregate is the one SetMask computes from scratch for the
  packed mask that Mask then gives, and that packed mask is the set's mask.
\<close>

theorem cached_aggregate_invariant:
  "aggr_ok (SetMask cos m)
   \<and> (NewCosigners E publicKeys = Some cos0 \<longrightarrow> aggr_ok cos0)
   \<and> (aggr_ok cos \<and> SetMaskBit cos signer b = (cos1, Inr ()) \<longrightarrow> aggr_ok cos1)
   \<and> (aggr_ok cos \<and> SetMaskBits cos ops = (cos2, Inr ()) \<longrightarrow>
        aggr_ok cos2
        \<and> aggr cos2 = aggr (SetMask cos (Mask cos2))
        \<and> Mask (SetMask cos (Mask cos2)) = Mask cos2)"
proof (intro conjI impI)
  show "aggr_ok (SetMask cos m)" by (rule aggr_ok_SetMask)
next
  assume "NewCosigners E publicKeys = Some cos0"
  then show "aggr_ok cos0" by (rule NewCosigners_aggr_ok)
next
  assume "aggr_ok cos \<and> SetMaskBit cos signer b = (cos1, Inr ())"
  then show "aggr_ok cos1" using SetMaskBit_aggr_ok by blast
next
  assume a: "aggr_ok cos \<and> SetMaskBits cos ops = (cos2, Inr ())"
  then have ok: "aggr_ok cos2" and k: "keys cos2 = keys cos"
    using SetMaskBits_aggr_ok by blast+
  show "aggr_ok cos2" by (rule ok)
  have "aggr (SetMask cos (Mask cos2)) = aggr (SetMask cos2 (Mask cos2))"
    using SetMask_keys_cong [OF k] by simp
  then show "aggr cos2 = aggr (SetMask cos (Mask cos2))"
    using SetMask_Mask_aggr [OF ok] by simp
  have "Mask (SetMask cos2 (Mask cos2)) = Mask cos2"
    by (rule Mask_SetMask_roundtrip) (simp_all add: Mask_high_bits)
  moreover have "Mask (SetMask cos (Mask cos2)) = Mask (SetMask cos2 (Mask cos2))"
    using SetMask_keys_cong [OF k] k by (intro Mask_cong) simp_all
  ultimately show "Mask (SetMask cos (Mask cos2)) = Mask cos2" by simp
qed

lemma sample_NewCosigners:
  "NewCosigners sample_E [3 # replicate 31 0, 5 # replicate 31 0]
     = Some \<lparr>keys = [3, 5], mask = 0, aggr = 8, policy = fullPolicy\<rparr>"
  by (simp add: NewCosigners_def sample_E_def copy_bytes_def SetMask_def SetMask_step_def upt_rec)

lemma sample_SetMaskBit:
  "SetMaskBit sample_cos 1 Disabled
     = (\<lparr>keys = [3, 5, 7], mask = 2, aggr = 10, policy = fullPolicy\<rparr>, Inr ())"
  by (simp add: SetMaskBit_def sample_cos_def Disabled_def Let_def set_bit_0 set_bit_Suc)

lemma sample_SetMaskBits:
  "SetMaskBits sample_cos [(1, Disabled), (2, Disabled), (1, Enabled)]
     = (\<lparr>keys = [3, 5, 7], mask = 4, aggr = 8, policy = fullPolicy\<rparr>, Inr ())"
  by (simp add: SetMaskBit_def sample_cos_def Disabled_def Enabled_def Let_def
      set_bit_0 set_bit_Suc unset_bit_0 unset_bit_Suc bit_0 bit_Suc)

lemma aggr_ok_sample_cos: "aggr_ok sample_cos"
  by (simp add: aggr_ok_def sample_cos_def enabled_sum_def upt_rec)

lemma sample_Mask:
  "Mask \<lparr>keys = [3, 5, 7], mask = 4, aggr = 8 :: int, policy = fullPolicy\<rparr> = [4]"
  by (simp add: Mask_def Mask_step_def upt_rec bit_0 bit_Suc)

lemma sample_SetMask:
  "SetMask sample_cos [4] = \<lparr>keys = [3, 5, 7], mask = 4, aggr = 8, policy = fullPolicy\<rparr>"
  by (simp add: SetMask_def SetMask_step_eq disabled_in_def sample_cos_def upt_rec
      set_bit_0 set_bit_Suc bit_0 bit_Suc)

theorem cached_aggregate_invariant_witness:
  "NewCosigners sample_E [3 # replicate 31 0, 5 # replicate 31 0]
     = Some \<lparr>keys = [3, 5], mask = 0, aggr = 8, policy = fullPolicy\<rparr>
   \<and> aggr_ok \<lparr>keys = [3, 5], mask = 0, aggr = 8 :: int, policy = fullPolicy\<rparr>
   \<and> aggr_ok sample_cos
   \<and> SetMaskBit sample_cos 1 Disabled
       = (\<lparr>keys = [3, 5, 7], mask = 2, aggr = 10, policy = fullPolicy\<rparr>, Inr ())
   \<and> aggr_ok \<lparr>keys = [3, 5, 7], mask = 2, aggr = 10 :: int, policy = fullPolicy\<rparr>
   \<and> SetMaskBits sample_cos [(1, Disabled), (2, Disabled), (1, Enabled)]
       = (\<lparr>keys = [3, 5, 7], mask = 4, aggr = 8, policy = fullPolicy\<rparr>, Inr ())
   \<and> aggr_ok \<lparr>keys = [3, 5, 7], mask = 4, aggr = 8 :: int, policy = fullPolicy\<rparr>
   \<and> aggr (SetMask sample_cos [4]) = 8
   \<and> Mask (SetMask sample_cos [4]) = [4]"
  using cached_aggregate_invariant [of sample_cos "[]" sample_E
      "[3 # replicate 31 0, 5 # replicate 31 0]"
      "\<lparr>keys = [3, 5], mask = 0, aggr = 8, policy = fullPolicy\<rparr>" 1 Disabled
      "\<lparr>keys = [3, 5, 7], mask = 2, aggr = 10, policy = fullPolicy\<rparr>"
      "[(1, Disabled), (2, Disabled), (1, Enabled)]"
      "\<lparr>keys = [3, 5, 7], mask = 4, aggr = 8, policy = fullPolicy\<rparr>"]
    sample_NewCosigners sample_SetMaskBit sample_SetMaskBits aggr_ok_sample_cos
  by (simp add: sample_Mask)

section \<open>SetMask and Mask\<close>

lemma bit_byte_4: "bit (4 :: byte) n \<longleftrightarrow> n = 2"
  using bit_exp_iff [of 2 n, where ?'a = byte] by auto

lemma MaskBit_SetMask:
  "MaskBit (SetMask cos m) i \<longleftrightarrow> i < length (keys cos) \<and> disabled_in m i"
  by (simp add: MaskBit_def bit_mask_SetMask)

text \<open>
  C8. For a mask \<open>m\<close> of \<open>\<lceil>N/8\<rceil>\<close> bytes whose bits at the indices from \<open>N\<close> on are
  zero, Mask after SetMask gives \<open>m\<close> back. Zero bytes appended to the buffer change
  nothing, so a short buffer, the empty one included, is read as if the missing bytes were
  zero, and the cosigners of the missing bytes are Enabled.
\<close>

theorem SetMask_then_Mask:
  "(length m = (length (keys cos) + 7) div 8
      \<and> (\<forall>i. length (keys cos) \<le> i \<longrightarrow> \<not> disabled_in m i)
      \<longrightarrow> Mask (SetMask cos m) = m)
   \<and> SetMask cos (m @ replicate k 0) = SetMask cos m
   \<and> SetMask cos [] = SetMask cos (replicate k 0)
   \<and> (i < length (keys cos) \<and> length m \<le> i div 8 \<longrightarrow> MaskBit (SetMask cos m) i = Enabled)"
proof (intro conjI impI)
  assume "length m = (length (keys cos) + 7) div 8
      \<and> (\<forall>i. length (keys cos) \<le> i \<longrightarrow> \<not> disabled_in m i)"
  then show "Mask (SetMask cos m) = m"
    by (intro Mask_SetMask_roundtrip) simp_all
next
  show "SetMask cos (m @ replicate k 0) = SetMask cos m"
    by (rule SetMask_append_zeros)
next
  show "SetMask cos [] = SetMask cos (replicate k 0)"
    using SetMask_append_zeros [of cos "[]" k] by simp
next
  assume "i < length (keys cos) \<and> length m \<le> i div 8"
  then show "MaskBit (SetMask cos m) i = Enabled"
    by (simp add: MaskBit_SetMask Enabled_def disabled_in_def)
qed

theorem SetMask_then_Mask_witness:
  "length [4 :: byte] = (length (keys sample_cos) + 7) div 8
   \<and> Mask (SetMask sample_cos [4]) = [4]
   \<and> 2 < length (keys sample_cos) \<and> length ([] :: byte list) \<le> 2 div 8
   \<and> MaskBit (SetMask sample_cos []) 2 = Enabled"
proof -
  have l: "length [4 :: byte] = (length (keys sample_cos) + 7) div 8"
    by (simp add: sample_cos_def)
  have h: "\<forall>i. length (keys sample_cos) \<le> i \<longrightarrow> \<not> disabled_in [4] i"
  proof (intro allI impI notI)
    fix i :: nat
    assume "length (keys sample_cos) \<le> i"
    then have i: "3 \<le> i"
      by (simp add: sample_cos_def)
    assume "disabled_in [4] i"
    then have c: "i div 8 < length [4 :: byte] \<and> bit ([4 :: byte] ! (i div 8)) (i mod 8)"
      unfolding disabled_in_def .
    then have d: "i div 8 = 0"
      by simp
    from c have "bit ([4 :: byte] ! (i div 8)) (i mod 8)"
      by (rule conjunct2)
    with d have "bit (4 :: byte) (i mod 8)"
      by simp
    then have "i mod 8 = 2"
      by (simp only: bit_byte_4)
    with i d show False
      using div_mult_mod_eq [of i 8] by simp
  qed
  have e: "2 < length (keys sample_cos) \<and> length ([] :: byte list) \<le> 2 div 8"
    by (simp add: sample_cos_def)
  show ?thesis
    using SetMask_then_Mask [of "[4]" sample_cos 0 2] SetMask_then_Mask [of "[]" sample_cos 0 2]
      l h e by blast
qed

section \<open>AggregateCommit\<close>


lemma Disabled_neq_Enabled [simp]: "Disabled \<noteq> Enabled" "Enabled \<noteq> Disabled"
  by (simp_all add: Enabled_def Disabled_def)




lemma all_less_3: "(\<forall>i<3. P i) = (P 0 \<and> P 1 \<and> P (2 :: nat))"
  by (auto simp: less_Suc_eq numeral_3_eq_3 numeral_2_eq_2)

lemma upt_0_3: "[0..<3] = [0, 1, 2]"
  by (simp add: upt_rec)

lemma sample_absent_bits:
  "MaskBit sample_cos_absent 0 = Enabled" "MaskBit sample_cos_absent 1 = Disabled"
  "MaskBit sample_cos_absent (Suc 0) = Disabled"
  "MaskBit sample_cos_absent 2 = Enabled" "length (keys sample_cos_absent) = 3"
  by (simp_all add: MaskBit_def sample_cos_absent_def Enabled_def Disabled_def bit_0 bit_Suc)






section \<open>AggregateSignature\<close>

lemma le_nat_replicate_zero [simp]: "le_nat (replicate n 0) = 0"
  by (induction n) simp_all

lemma le_nat_scOne [simp]: "le_nat scOne = 1"
  by (simp add: scOne_def)

lemma le_bytes_zero: "le_bytes n 0 = replicate n 0"
  by (induction n) simp_all

lemma ScMulAdd_one:
  "ScMulAdd (le_bytes 32 (a mod ell)) scOne s = le_bytes 32 ((a + le_nat s) mod ell)"
  by (simp add: ScMulAdd_def mod_add_left_eq)

lemma AggregateSignature_loop_ok:
  assumes "\<And>i. i \<in> set is \<Longrightarrow> MaskBit cos i = Enabled
             \<Longrightarrow> i < length sigParts \<and> length (sigParts ! i) = 32"
    and "length buf = 32"
  shows "AggregateSignature_loop cos sigParts is (le_bytes 32 (a mod ell)) buf
           = Inr (Some (le_bytes 32 ((a + sum_list (map (\<lambda>i. le_nat (sigParts ! i))
                  (filter (\<lambda>i. MaskBit cos i = Enabled) is))) mod ell)))"
  using assms
proof (induction "is" arbitrary: a buf)
  case Nil
  then show ?case by simp
next
  case (Cons i "is")
  show ?case
  proof (cases "MaskBit cos i = Enabled")
    case False
    then have "MaskBit cos i = Disabled" by (simp add: Enabled_def Disabled_def)
    with False Cons show ?thesis by simp
  next
    case True
    from Cons.prems(1) [of i] True
    have r: "i < length sigParts" and l: "length (sigParts ! i) = 32"
      by simp_all
    have c: "copy_bytes buf (sigParts ! i) = sigParts ! i"
      using l Cons.prems(2) by (simp add: copy_bytes_same_length)
    have "AggregateSignature_loop cos sigParts is
            (le_bytes 32 ((a + le_nat (sigParts ! i)) mod ell)) (sigParts ! i)
          = Inr (Some (le_bytes 32 ((a + le_nat (sigParts ! i)
                + sum_list (map (\<lambda>i. le_nat (sigParts ! i))
                  (filter (\<lambda>i. MaskBit cos i = Enabled) is))) mod ell)))"
      using Cons.prems(1) l by (intro Cons.IH) simp_all
    then show ?thesis
      using True r l c by (simp add: Let_def ScMulAdd_one add.assoc)
  qed
qed

lemma AggregateSignature_loop_first_bad:
  assumes "MaskBit cos i = Enabled" and "i < length sigParts"
    and "length (sigParts ! i) \<noteq> 32"
    and "\<And>j. j \<in> set pre \<Longrightarrow> j < length sigParts"
  shows "AggregateSignature_loop cos sigParts (pre @ i # post) acc buf = Inr None"
  using assms(4)
proof (induction pre arbitrary: acc buf)
  case Nil
  then show ?case using assms(1-3) by simp
next
  case (Cons j pre)
  have ih: "\<And>acc buf. AggregateSignature_loop cos sigParts (pre @ i # post) acc buf = Inr None"
    using Cons.prems by (intro Cons.IH) simp
  have r: "j < length sigParts" using Cons.prems by simp
  show ?case
  proof (cases "MaskBit cos j = Disabled")
    case True
    then show ?thesis by (simp add: ih)
  next
    case False
    with r show ?thesis by (simp add: ih Let_def)
  qed
qed

lemma AggregateSignature_loop_cong:
  assumes "length sigParts' = length sigParts"
    and "\<And>i. i \<in> set is \<Longrightarrow> MaskBit cos i = Enabled \<Longrightarrow> sigParts' ! i = sigParts ! i"
  shows "AggregateSignature_loop cos sigParts' is acc buf
           = AggregateSignature_loop cos sigParts is acc buf"
  using assms(2)
proof (induction "is" arbitrary: acc buf)
  case Nil
  then show ?case by simp
next
  case (Cons i "is")
  have ih: "\<And>acc buf. AggregateSignature_loop cos sigParts' is acc buf
           = AggregateSignature_loop cos sigParts is acc buf"
    using Cons.prems by (intro Cons.IH) simp
  show ?case
  proof (cases "MaskBit cos i = Disabled")
    case True
    then show ?thesis by (simp add: ih)
  next
    case False
    then have "MaskBit cos i = Enabled" by (simp add: Enabled_def Disabled_def)
    then have "sigParts' ! i = sigParts ! i" using Cons.prems by simp
    then show ?thesis using False assms(1) by (simp add: ih Let_def)
  qed
qed

lemma signature_layout:
  assumes "length R = 32" and "length S = 32"
  shows "copy_slice (copy_slice (copy_slice (replicate (64 + length m) 0)
             0 (64 + length m) R) 32 64 S) 64 (64 + length m) m
           = R @ S @ m"
proof -
  have 1: "copy_slice (replicate (64 + length m) 0) 0 (64 + length m) R
      = R @ replicate (32 + length m) 0"
    using assms(1) by (simp add: copy_slice_def copy_bytes_def)
  have 2: "copy_slice (R @ replicate (32 + length m) 0) 32 64 S = R @ S @ replicate (length m) 0"
    using assms by (simp add: copy_slice_def copy_bytes_def)
  have 3: "copy_slice (R @ S @ replicate (length m) 0) 64 (64 + length m) m = R @ S @ m"
    using assms by (simp add: copy_slice_def copy_bytes_def)
  show ?thesis by (simp only: 1 2 3)
qed



lemma sample_absent_Mask: "Mask sample_cos_absent = [2]"
  by (simp add: Mask_def Mask_step_def sample_cos_absent_def upt_rec bit_0 bit_Suc)

lemma le_bytes_small: "v < 256 \<Longrightarrow> le_bytes (Suc n) v = of_nat v # replicate n 0"
  by (simp add: le_bytes_zero)

lemma le_bytes_32_10: "le_bytes 32 (10 mod ell) = 10 # replicate 31 0"
proof -
  have "(10 :: nat) mod ell = 10" by (simp add: ell_def)
  moreover have "le_bytes (Suc 31) 10 = of_nat 10 # replicate 31 0"
    by (rule le_bytes_small) simp
  ultimately show ?thesis by simp
qed

lemma le_nat_small [simp]: "le_nat (b # replicate n 0) = unat b"
  by simp


text \<open>
  C6. AggregateSignature panics when the aggregate commit does not have 32 bytes. With a
  32-byte aggregate commit and N signature parts of which the enabled ones have 32 bytes,
  it returns the aggregate commit, then the 32 little-endian bytes of the sum modulo
  \<open>\<ell>\<close> of the parts at the enabled indices, then the packed mask of the set:
  \<open>64 + \<lceil>N/8\<rceil>\<close> bytes. The parts at disabled indices do not enter.
\<close>

theorem AggregateSignature_result:
  "(length aggregateR \<noteq> 32 \<longrightarrow>
      AggregateSignature cos aggregateR sigParts
        = Inl (BadAggregateRLength (length aggregateR)))
   \<and> (length aggregateR = 32 \<and> length sigParts = length (keys cos)
        \<and> (\<forall>i<length (keys cos). MaskBit cos i = Enabled \<longrightarrow> length (sigParts ! i) = 32)
      \<longrightarrow> AggregateSignature cos aggregateR sigParts
            = Inr (Some (aggregateR
                @ le_bytes 32 (sum_list (map (\<lambda>i. le_nat (sigParts ! i))
                    (filter (\<lambda>i. MaskBit cos i = Enabled) [0..<length (keys cos)])) mod ell)
                @ Mask cos))
          \<and> length (aggregateR
                @ le_bytes 32 (sum_list (map (\<lambda>i. le_nat (sigParts ! i))
                    (filter (\<lambda>i. MaskBit cos i = Enabled) [0..<length (keys cos)])) mod ell)
                @ Mask cos) = 64 + (length (keys cos) + 7) div 8)"
proof (intro conjI impI)
  assume "length aggregateR \<noteq> 32"
  then show "AggregateSignature cos aggregateR sigParts
        = Inl (BadAggregateRLength (length aggregateR))"
    by (simp add: AggregateSignature_def)
next
  assume a: "length aggregateR = 32 \<and> length sigParts = length (keys cos)
        \<and> (\<forall>i<length (keys cos). MaskBit cos i = Enabled \<longrightarrow> length (sigParts ! i) = 32)"
  have "AggregateSignature_loop cos sigParts [0..<length (keys cos)]
          (le_bytes 32 (0 mod ell)) (replicate 32 0)
        = Inr (Some (le_bytes 32 ((0 + sum_list (map (\<lambda>i. le_nat (sigParts ! i))
                  (filter (\<lambda>i. MaskBit cos i = Enabled) [0..<length (keys cos)]))) mod ell)))"
    using a by (intro AggregateSignature_loop_ok) simp_all
  then have loop: "AggregateSignature_loop cos sigParts [0..<length (keys cos)]
          (replicate 32 0) (replicate 32 0)
        = Inr (Some (le_bytes 32 (sum_list (map (\<lambda>i. le_nat (sigParts ! i))
                  (filter (\<lambda>i. MaskBit cos i = Enabled) [0..<length (keys cos)])) mod ell)))"
    by (simp add: le_bytes_zero)
  show "AggregateSignature cos aggregateR sigParts
            = Inr (Some (aggregateR
                @ le_bytes 32 (sum_list (map (\<lambda>i. le_nat (sigParts ! i))
                    (filter (\<lambda>i. MaskBit cos i = Enabled) [0..<length (keys cos)])) mod ell)
                @ Mask cos))"
    using a by (simp add: AggregateSignature_def loop Let_def signature_layout)
  show "length (aggregateR
                @ le_bytes 32 (sum_list (map (\<lambda>i. le_nat (sigParts ! i))
                    (filter (\<lambda>i. MaskBit cos i = Enabled) [0..<length (keys cos)])) mod ell)
                @ Mask cos) = 64 + (length (keys cos) + 7) div 8"
    using a by simp
qed

theorem AggregateSignature_result_witness:
  "AggregateSignature sample_cos_absent [] [4 # replicate 31 0, [1, 2, 3], 6 # replicate 31 0]
     = Inl (BadAggregateRLength 0)
   \<and> length (replicate 32 (7 :: byte)) = 32
   \<and> length [4 # replicate 31 0, [1, 2, 3], 6 # replicate 31 (0 :: byte)]
       = length (keys sample_cos_absent)
   \<and> AggregateSignature sample_cos_absent (replicate 32 7)
         [4 # replicate 31 0, [1, 2, 3], 6 # replicate 31 0]
       = Inr (Some (replicate 32 7 @ (10 # replicate 31 0) @ [2]))
   \<and> length (replicate 32 (7 :: byte) @ (10 # replicate 31 0) @ [2 :: byte]) = 65"
proof -
  note t = AggregateSignature_result [of "[]" sample_cos_absent
      "[4 # replicate 31 0, [1, 2, 3], 6 # replicate 31 0]", THEN conjunct1]
  note u = AggregateSignature_result [of "replicate 32 7" sample_cos_absent
      "[4 # replicate 31 0, [1, 2, 3], 6 # replicate 31 0]", THEN conjunct2]
  have h: "length (replicate 32 (7 :: byte)) = 32
      \<and> length [4 # replicate 31 0, [1, 2, 3], 6 # replicate 31 (0 :: byte)]
          = length (keys sample_cos_absent)
      \<and> (\<forall>i<length (keys sample_cos_absent). MaskBit sample_cos_absent i = Enabled \<longrightarrow>
            length ([4 # replicate 31 0, [1, 2, 3], 6 # replicate 31 (0 :: byte)] ! i) = 32)"
    by (simp add: sample_absent_bits all_less_3)
  have 1: "AggregateSignature sample_cos_absent []
      [4 # replicate 31 0, [1, 2, 3], 6 # replicate 31 0] = Inl (BadAggregateRLength 0)"
    using t by simp
  have 2: "AggregateSignature sample_cos_absent (replicate 32 7)
         [4 # replicate 31 0, [1, 2, 3], 6 # replicate 31 0]
       = Inr (Some (replicate 32 7 @ (10 # replicate 31 0) @ [2]))"
    using u [rule_format, OF h, THEN conjunct1]
    by (simp add: sample_absent_bits upt_0_3 sample_absent_Mask le_bytes_32_10)
  from 1 2 h show ?thesis by simp
qed

text \<open>
  C10. With a 32-byte aggregate commit, AggregateSignature returns nil when the part at
  some enabled index does not have 32 bytes. The parts at disabled indices are not read:
  replacing them by any bytes leaves the result as it is.
\<close>

theorem AggregateSignature_malformed_part:
  assumes "length aggregateR = 32"
  shows "((\<exists>i<length (keys cos). i < length sigParts \<and> MaskBit cos i = Enabled
              \<and> length (sigParts ! i) \<noteq> 32)
            \<longrightarrow> AggregateSignature cos aggregateR sigParts = Inr None)
         \<and> (length sigParts' = length sigParts
              \<and> (\<forall>i<length (keys cos). MaskBit cos i = Enabled \<longrightarrow> sigParts' ! i = sigParts ! i)
            \<longrightarrow> AggregateSignature cos aggregateR sigParts'
                  = AggregateSignature cos aggregateR sigParts)"
proof (intro conjI impI)
  assume "\<exists>i<length (keys cos). i < length sigParts \<and> MaskBit cos i = Enabled
      \<and> length (sigParts ! i) \<noteq> 32"
  then obtain i where i: "i < length (keys cos)" "i < length sigParts"
      "MaskBit cos i = Enabled" "length (sigParts ! i) \<noteq> 32"
    by blast
  have split: "[0..<length (keys cos)] = [0..<i] @ i # [Suc i..<length (keys cos)]"
    using i(1) by (metis le0 upt_conv_Cons upt_add_eq_append le_add_diff_inverse less_imp_le_nat)
  have "AggregateSignature_loop cos sigParts ([0..<i] @ i # [Suc i..<length (keys cos)])
          (replicate 32 0) (replicate 32 0) = Inr None"
    using i by (intro AggregateSignature_loop_first_bad) simp_all
  then show "AggregateSignature cos aggregateR sigParts = Inr None"
    using assms by (simp add: AggregateSignature_def split)
next
  assume "length sigParts' = length sigParts
      \<and> (\<forall>i<length (keys cos). MaskBit cos i = Enabled \<longrightarrow> sigParts' ! i = sigParts ! i)"
  then have "AggregateSignature_loop cos sigParts' [0..<length (keys cos)]
          (replicate 32 0) (replicate 32 0)
      = AggregateSignature_loop cos sigParts [0..<length (keys cos)]
          (replicate 32 0) (replicate 32 0)"
    by (intro AggregateSignature_loop_cong) simp_all
  then show "AggregateSignature cos aggregateR sigParts'
      = AggregateSignature cos aggregateR sigParts"
    by (simp add: AggregateSignature_def)
qed

theorem AggregateSignature_malformed_part_witness:
  "length (replicate 32 (7 :: byte)) = 32
   \<and> 2 < length [4 # replicate 31 0, [], [1 :: byte]]
   \<and> MaskBit sample_cos_absent 2 = Enabled
   \<and> length ([4 # replicate 31 0, [], [1 :: byte]] ! 2) \<noteq> 32
   \<and> AggregateSignature sample_cos_absent (replicate 32 7) [4 # replicate 31 0, [], [1]] = Inr None
   \<and> AggregateSignature sample_cos_absent (replicate 32 7)
         [4 # replicate 31 0, [1, 2, 3], 6 # replicate 31 0]
       = AggregateSignature sample_cos_absent (replicate 32 7)
           [4 # replicate 31 0, [], 6 # replicate 31 0]"
proof -
  have r: "length (replicate 32 (7 :: byte)) = 32"
    by simp
  have b: "2 < length [4 # replicate 31 0, [], [1 :: byte]]
      \<and> MaskBit sample_cos_absent 2 = Enabled
      \<and> length ([4 # replicate 31 0, [], [1 :: byte]] ! 2) \<noteq> 32"
    by (simp add: sample_absent_bits)
  then have e: "\<exists>i<length (keys sample_cos_absent).
      i < length [4 # replicate 31 0, [], [1 :: byte]]
      \<and> MaskBit sample_cos_absent i = Enabled
      \<and> length ([4 # replicate 31 0, [], [1 :: byte]] ! i) \<noteq> 32"
    by (intro exI [of _ 2]) (simp add: sample_absent_bits)
  have a: "length [4 # replicate 31 0, [1, 2, 3], 6 # replicate 31 (0 :: byte)]
        = length [4 # replicate 31 0, [], 6 # replicate 31 (0 :: byte)]
      \<and> (\<forall>i<length (keys sample_cos_absent). MaskBit sample_cos_absent i = Enabled \<longrightarrow>
            [4 # replicate 31 0, [1, 2, 3], 6 # replicate 31 (0 :: byte)] ! i
              = [4 # replicate 31 0, [], 6 # replicate 31 (0 :: byte)] ! i)"
    by (simp add: sample_absent_bits all_less_3)
  have 1: "AggregateSignature sample_cos_absent (replicate 32 7) [4 # replicate 31 0, [], [1]]
      = Inr None"
    using AggregateSignature_malformed_part [OF r, THEN conjunct1, rule_format, OF e] .
  have 2: "AggregateSignature sample_cos_absent (replicate 32 7)
         [4 # replicate 31 0, [1, 2, 3], 6 # replicate 31 0]
       = AggregateSignature sample_cos_absent (replicate 32 7)
           [4 # replicate 31 0, [], 6 # replicate 31 0]"
    using AggregateSignature_malformed_part [OF r, THEN conjunct2, rule_format, OF a] .
  from r b 1 2 show ?thesis by blast
qed

section \<open>Cosign\<close>

text \<open>
  C2, as the code has it. A call of Cosign that returns a share leaves the secret with
  its scalar zeroed and its flag false, and every later call with that secret, whatever
  its other arguments, panics and leaves the secret as it is. A call that panics leaves
  the secret as it found it: the three checks come before the secret is touched.
\<close>

theorem Cosign_secret_after:
  assumes "Cosign sha512 privateKey secret message aggregateK aggregateR = (secret', r)"
  shows "case r of
           Inr share \<Rightarrow>
             reduced secret' = replicate 32 0 \<and> \<not> valid secret'
             \<and> isl (snd (Cosign sha512' privateKey' secret' message' aggregateK' aggregateR'))
             \<and> fst (Cosign sha512' privateKey' secret' message' aggregateK' aggregateR')
                 = secret'
         | Inl p \<Rightarrow> secret' = secret"
  using assms by (auto simp: Cosign_def Let_def split: if_splits)

theorem Cosign_secret_after_witness:
  "reduced (fst (Cosign sample_hash (replicate 64 0)
       \<lparr>reduced = replicate 32 9, valid = True\<rparr> [] [] (replicate 32 0))) = replicate 32 0
   \<and> \<not> valid (fst (Cosign sample_hash (replicate 64 0)
       \<lparr>reduced = replicate 32 9, valid = True\<rparr> [] [] (replicate 32 0)))
   \<and> isl (snd (Cosign sample_hash (replicate 64 0)
       (fst (Cosign sample_hash (replicate 64 0)
          \<lparr>reduced = replicate 32 9, valid = True\<rparr> [] [] (replicate 32 0)))
       [] [] (replicate 32 0)))"
proof -
  obtain s' r where c: "Cosign sample_hash (replicate 64 0)
       \<lparr>reduced = replicate 32 9, valid = True\<rparr> [] [] (replicate 32 0) = (s', r)"
    by (cases "Cosign sample_hash (replicate 64 0)
       \<lparr>reduced = replicate 32 9, valid = True\<rparr> [] [] (replicate 32 0)")
  have "\<not> isl r"
    using arg_cong [OF c, of snd] by (auto simp: Cosign_def Let_def)
  then obtain share where r: "r = Inr share"
    by (cases r) simp_all
  show ?thesis
    using Cosign_secret_after [OF c, of sample_hash "replicate 64 0" "[]" "[]" "replicate 32 0"]
    by (simp add: c r)
qed

text \<open>
  C2 as stated fails: a call that panics on the length of the private key leaves a valid
  secret valid, with its scalar.
\<close>

theorem Cosign_panic_keeps_secret:
  "Cosign sample_hash [] \<lparr>reduced = replicate 32 1, valid = True\<rparr> [] [] []
     = (\<lparr>reduced = replicate 32 1, valid = True\<rparr>, Inl (BadPrivateKeyLength 0))"
  by (simp add: Cosign_def)

text \<open>
  C3. With a 64-byte private key, a valid secret holding \<open>r\<close> and a 32-byte aggregate
  commit, Cosign returns the 32 little-endian bytes of \<open>s = (h \<cdot> a + r) mod \<ell>\<close>, a value
  below \<open>\<ell>\<close>, where \<open>a\<close> is read from the first 32 bytes of the hash of the first half
  of the private key after the clamp, and \<open>h\<close> is the hash of the aggregate commit, the
  aggregate key and the message, reduced modulo \<open>\<ell>\<close>.
\<close>

theorem Cosign_share:
  assumes "wf_hash sha512" and "length privateKey = 64" and "valid secret"
    and "length aggregateR = 32"
  shows "let d = take 32 (sha512 (take 32 privateKey));
             a = le_nat (d[0 := d ! 0 AND 248, 31 := (d ! 31 AND 63) OR 64]);
             h = le_nat (sha512 (aggregateR @ aggregateK @ message)) mod ell;
             s = (h * a + le_nat (reduced secret)) mod ell
         in snd (Cosign sha512 privateKey secret message aggregateK aggregateR)
              = Inr (le_bytes 32 s)
            \<and> length (le_bytes 32 s) = 32 \<and> le_nat (le_bytes 32 s) = s \<and> s < ell"
proof -
  have "length (sha512 (take 32 privateKey)) = 64"
    using assms(1) by (simp add: wf_hash_def)
  then have c: "copy_bytes (replicate 32 0) (sha512 (take 32 privateKey))
      = take 32 (sha512 (take 32 privateKey))"
    by (simp add: copy_bytes_prefix)
  show ?thesis
    using assms(2-4) ell_pos
    by (simp add: Cosign_def Let_def c clamp_eq ScMulAdd_def ScReduce_def)
qed

theorem Cosign_share_witness:
  "wf_hash sample_hash \<and> length (replicate 64 (3 :: byte)) = 64
   \<and> valid \<lparr>reduced = replicate 32 9, valid = True\<rparr>
   \<and> length (replicate 32 (1 :: byte)) = 32
   \<and> (let d = take 32 (sample_hash (take 32 (replicate 64 3)));
           a = le_nat (d[0 := d ! 0 AND 248, 31 := (d ! 31 AND 63) OR 64]);
           h = le_nat (sample_hash (replicate 32 1 @ replicate 32 2 @ [5])) mod ell;
           s = (h * a + le_nat (reduced \<lparr>reduced = replicate 32 9, valid = True\<rparr>)) mod ell
       in snd (Cosign sample_hash (replicate 64 3) \<lparr>reduced = replicate 32 9, valid = True\<rparr>
                 [5] (replicate 32 2) (replicate 32 1))
            = Inr (le_bytes 32 s)
          \<and> length (le_bytes 32 s) = 32 \<and> le_nat (le_bytes 32 s) = s \<and> s < ell)"
proof -
  have v: "valid \<lparr>reduced = replicate 32 9, valid = True\<rparr>"
    by simp
  have l1: "length (replicate 64 (3 :: byte)) = 64" and l2: "length (replicate 32 (1 :: byte)) = 32"
    by simp_all
  show ?thesis
    using Cosign_share [OF wf_sample_hash l1 v l2, of "replicate 32 2" "[5]"]
      wf_sample_hash l1 v l2
    by blast
qed

text \<open>
  C4, as the code has it. Cosign panics exactly when the private key does not have 64
  bytes, the aggregate commit does not have 32 bytes, or the secret is not valid. The
  length of the aggregate public key is not checked.
\<close>

theorem Cosign_panics_iff:
  "isl (snd (Cosign sha512 privateKey secret message aggregateK aggregateR))
     \<longleftrightarrow> length privateKey \<noteq> 64 \<or> length aggregateR \<noteq> 32 \<or> \<not> valid secret"
  by (simp add: Cosign_def Let_def)

theorem Cosign_panics_iff_witness:
  "isl (snd (Cosign sample_hash (replicate 64 0) \<lparr>reduced = replicate 32 0, valid = False\<rparr>
       [] (replicate 32 0) (replicate 32 0)))
   \<and> \<not> isl (snd (Cosign sample_hash (replicate 64 0) \<lparr>reduced = replicate 32 0, valid = True\<rparr>
       [] (replicate 32 0) (replicate 32 0)))"
  using Cosign_panics_iff [of sample_hash "replicate 64 0"
      "\<lparr>reduced = replicate 32 0, valid = False\<rparr>" "[]" "replicate 32 0" "replicate 32 0"]
    Cosign_panics_iff [of sample_hash "replicate 64 0"
      "\<lparr>reduced = replicate 32 0, valid = True\<rparr>" "[]" "replicate 32 0" "replicate 32 0"]
  by simp

text \<open>
  C4 as stated fails: with an empty aggregate public key and the other three conditions
  met, Cosign returns a share.
\<close>

theorem Cosign_short_aggregateK:
  "length ([] :: byte list) \<noteq> 32
   \<and> \<not> isl (snd (Cosign sample_hash (replicate 64 0)
         \<lparr>reduced = replicate 32 0, valid = True\<rparr> [] [] (replicate 32 0)))"
  by (simp add: Cosign_def Let_def)

section \<open>Verify\<close>


lemma bit_byte_2: "bit (2 :: byte) n \<longleftrightarrow> n = 1"
  using bit_exp_iff [of 1 n, where ?'a = byte] by auto

lemma sample_SetMask_2:
  "SetMask sample_cos [2] = \<lparr>keys = [3, 5, 7], mask = 2, aggr = 10, policy = fullPolicy\<rparr>"
  by (simp add: SetMask_def SetMask_step_eq disabled_in_def sample_cos_def upt_rec
      set_bit_0 set_bit_Suc bit_0 bit_Suc)

lemma sample_Check_2:
  "\<not> Check (policy sample_cos) (SetMask sample_cos [2])"
proof -
  have "policy sample_cos = fullPolicy"
    by (simp add: sample_cos_def)
  moreover have "\<not> Check fullPolicy
      \<lparr>keys = [3, 5, 7], mask = 2, aggr = 10 :: int, policy = fullPolicy\<rparr>"
    by (simp add: CountEnabled_def CountTotal_def MaskBit_def Enabled_def upt_rec bit_0 bit_Suc)
  ultimately show ?thesis
    by (simp add: sample_SetMask_2)
qed

lemma sample_MaskLen: "MaskLen sample_cos = 1" "length (keys sample_cos) = 3"
  by (simp_all add: MaskLen_def sample_cos_def)

lemma sample_Mask_2:
  "Mask \<lparr>keys = [3, 5, 7], mask = 2, aggr = 10 :: int, policy = fullPolicy\<rparr> = [2]"
  by (simp add: Mask_def Mask_step_def upt_rec bit_0 bit_Suc)


lemma fst_verify [simp]: "fst (verify sha512 E cos message aggR sigR sigS sigA) = cos"
  by (simp add: verify_def Let_def)

lemma verify_high_bits:
  "length sigS = 32 \<Longrightarrow> (sigS ! 31) AND 224 \<noteq> 0
     \<Longrightarrow> verify sha512 E cos message aggR sigR sigS sigA = (cos, False)"
  by (simp add: verify_def)

lemma keys_MaskLen [simp]: "MaskLen (SetMask cos m) = MaskLen cos"
  by (simp add: MaskLen_def)

lemma fst_Verify:
  "fst (Verify sha512 E cos message sig)
     = (if length sig = 64 + MaskLen cos then SetMask cos (drop 64 sig) else cos)"
  by (simp add: Verify_def Let_def)

lemma disabled_in_drop64:
  assumes "length sig = 64 + MaskLen cos" and "i < length (keys cos)"
  shows "disabled_in (drop 64 sig) i = bit (sig ! (64 + i div 8)) (i mod 8)"
proof -
  have "i div 8 < MaskLen cos"
    using assms(2) unfolding MaskLen_def by (rule div8_less_ceil8)
  then show ?thesis
    using assms(1) by (simp add: disabled_in_def)
qed

text \<open>
  C5. Verify returns false when the signature does not have \<open>64 + \<lceil>N/8\<rceil>\<close> bytes, when
  the policy of the set rejects the set as it is after the mask has been taken from the
  signature, and when one of the top three bits of the last byte of the scalar, byte 63
  of the signature, is set. When the length is right, the set that Verify leaves is the
  one SetMask gives for the bytes from 64 on, whatever Verify returns: the mask bit of
  every cosigner is its bit in those bytes, Mask gives those bits back, and gives the
  bytes themselves when their padding bits are zero.
\<close>

theorem Verify_rejects_and_sets_mask:
  "(length sig \<noteq> 64 + MaskLen cos \<longrightarrow> Verify sha512 E cos message sig = (cos, False))
   \<and> (\<not> Check (policy cos) (SetMask cos (drop 64 sig))
        \<longrightarrow> \<not> snd (Verify sha512 E cos message sig))
   \<and> ((sig ! 63) AND 224 \<noteq> 0 \<longrightarrow> \<not> snd (Verify sha512 E cos message sig))
   \<and> (length sig = 64 + MaskLen cos \<longrightarrow>
        fst (Verify sha512 E cos message sig) = SetMask cos (drop 64 sig)
        \<and> (\<forall>i<length (keys cos).
              MaskBit (fst (Verify sha512 E cos message sig)) i
                = bit (sig ! (64 + i div 8)) (i mod 8))
        \<and> (\<forall>j<MaskLen cos. \<forall>k<8.
              bit (Mask (fst (Verify sha512 E cos message sig)) ! j) k
                = (8 * j + k < length (keys cos) \<and> bit (sig ! (64 + j)) k))
        \<and> ((\<forall>i. length (keys cos) \<le> i \<longrightarrow> \<not> disabled_in (drop 64 sig) i)
              \<longrightarrow> Mask (fst (Verify sha512 E cos message sig)) = drop 64 sig))"
proof (intro conjI impI allI)
  assume "length sig \<noteq> 64 + MaskLen cos"
  then show "Verify sha512 E cos message sig = (cos, False)"
    by (simp add: Verify_def Let_def)
next
  assume "\<not> Check (policy cos) (SetMask cos (drop 64 sig))"
  then show "\<not> snd (Verify sha512 E cos message sig)"
    by (simp add: Verify_def Let_def)
next
  assume h: "(sig ! 63) AND 224 \<noteq> 0"
  show "\<not> snd (Verify sha512 E cos message sig)"
  proof (cases "length sig = 64 + MaskLen cos")
    case False
    then show ?thesis by (simp add: Verify_def Let_def)
  next
    case True
    then have "length (take 32 (drop 32 sig)) = 32" and "take 32 (drop 32 sig) ! 31 = sig ! 63"
      by simp_all
    then have "verify sha512 E (SetMask cos (drop 64 sig)) message (take 32 sig) (take 32 sig)
        (take 32 (drop 32 sig)) (aggr (SetMask cos (drop 64 sig)))
      = (SetMask cos (drop 64 sig), False)"
      using h by (intro verify_high_bits) simp_all
    then show ?thesis by (simp add: Verify_def Let_def)
  qed
next
  assume l: "length sig = 64 + MaskLen cos"
  then show f: "fst (Verify sha512 E cos message sig) = SetMask cos (drop 64 sig)"
    by (simp add: fst_Verify)
  {
    fix i
    assume "i < length (keys cos)"
    then show "MaskBit (fst (Verify sha512 E cos message sig)) i
        = bit (sig ! (64 + i div 8)) (i mod 8)"
      using l by (simp add: f MaskBit_SetMask disabled_in_drop64)
  }
  {
    fix j k :: nat
    assume j: "j < MaskLen cos" and k: "k < 8"
    then have "disabled_in (drop 64 sig) (8 * j + k) = bit (sig ! (64 + j)) k"
      using l by (simp add: disabled_in_def)
    then show "bit (Mask (fst (Verify sha512 E cos message sig)) ! j) k
        = (8 * j + k < length (keys cos) \<and> bit (sig ! (64 + j)) k)"
      using j k by (auto simp: f bit_Mask bit_mask_SetMask MaskLen_def)
  }
  {
    assume "\<forall>i. length (keys cos) \<le> i \<longrightarrow> \<not> disabled_in (drop 64 sig) i"
    then show "Mask (fst (Verify sha512 E cos message sig)) = drop 64 sig"
      using l unfolding f by (intro Mask_SetMask_roundtrip) (simp_all add: MaskLen_def)
  }
qed

theorem Verify_rejects_and_sets_mask_witness:
  "length ([] :: byte list) \<noteq> 64 + MaskLen sample_cos
   \<and> Verify sample_hash sample_E sample_cos [] [] = (sample_cos, False)
   \<and> \<not> Check (policy sample_cos) (SetMask sample_cos (drop 64 (replicate 64 0 @ [2])))
   \<and> \<not> snd (Verify sample_hash sample_E sample_cos [] (replicate 64 0 @ [2]))
   \<and> ((replicate 63 0 @ [255, 0]) ! 63) AND (224 :: byte) \<noteq> 0
   \<and> \<not> snd (Verify sample_hash sample_E sample_cos [] (replicate 63 0 @ [255, 0]))
   \<and> length (replicate 64 (0 :: byte) @ [2]) = 64 + MaskLen sample_cos
   \<and> fst (Verify sample_hash sample_E sample_cos [] (replicate 64 0 @ [2]))
       = \<lparr>keys = [3, 5, 7], mask = 2, aggr = 10, policy = fullPolicy\<rparr>
   \<and> Mask (fst (Verify sample_hash sample_E sample_cos [] (replicate 64 0 @ [2]))) = [2]
   \<and> Mask (fst (Verify sample_hash sample_E sample_cos [] (replicate 64 0 @ [2])))
       = drop 64 (replicate 64 0 @ [2])"
proof -
  have p: "\<forall>i. length (keys sample_cos) \<le> i
      \<longrightarrow> \<not> disabled_in (drop 64 (replicate 64 0 @ [2])) i"
  proof (intro allI impI notI)
    fix i :: nat
    assume "length (keys sample_cos) \<le> i"
    then have i: "3 \<le> i"
      by (simp add: sample_cos_def)
    have dr: "drop 64 (replicate 64 (0 :: byte) @ [2]) = [2]"
      by simp
    assume "disabled_in (drop 64 (replicate 64 0 @ [2])) i"
    then have c: "i div 8 < length [2 :: byte] \<and> bit ([2 :: byte] ! (i div 8)) (i mod 8)"
      unfolding dr disabled_in_def .
    then have d: "i div 8 = 0"
      by simp
    from c have "bit ([2 :: byte] ! (i div 8)) (i mod 8)"
      by (rule conjunct2)
    with d have "bit (2 :: byte) (i mod 8)"
      by simp
    then have "i mod 8 = 1"
      by (simp only: bit_byte_2)
    with i d show False
      using div_mult_mod_eq [of i 8] by simp
  qed
  have 1: "length ([] :: byte list) \<noteq> 64 + MaskLen sample_cos"
    by (simp add: sample_MaskLen)
  have 2: "\<not> Check (policy sample_cos) (SetMask sample_cos (drop 64 (replicate 64 0 @ [2])))"
    by (simp add: sample_Check_2)
  have 3: "((replicate 63 0 @ [255, 0]) ! 63) AND (224 :: byte) \<noteq> 0"
    by (simp add: nth_append)
  have 4: "length (replicate 64 (0 :: byte) @ [2]) = 64 + MaskLen sample_cos"
    by (simp add: sample_MaskLen)
  note t1 = Verify_rejects_and_sets_mask [of "[]" sample_cos sample_hash sample_E "[]"]
  note t2 = Verify_rejects_and_sets_mask
    [of "replicate 64 0 @ [2]" sample_cos sample_hash sample_E "[]"]
  note t3 = Verify_rejects_and_sets_mask
    [of "replicate 63 0 @ [255, 0]" sample_cos sample_hash sample_E "[]"]
  have a: "Verify sample_hash sample_E sample_cos [] [] = (sample_cos, False)"
    using t1 1 by blast
  have b: "\<not> snd (Verify sample_hash sample_E sample_cos [] (replicate 64 0 @ [2]))"
    using t2 2 by blast
  have c: "\<not> snd (Verify sample_hash sample_E sample_cos [] (replicate 63 0 @ [255, 0]))"
    using t3 3 by blast
  have "fst (Verify sample_hash sample_E sample_cos [] (replicate 64 0 @ [2]))
      = SetMask sample_cos (drop 64 (replicate 64 0 @ [2]))"
    using t2 4 by blast
  then have d: "fst (Verify sample_hash sample_E sample_cos [] (replicate 64 0 @ [2]))
       = \<lparr>keys = [3, 5, 7], mask = 2, aggr = 10, policy = fullPolicy\<rparr>"
    by (simp add: sample_SetMask_2)
  then have e: "Mask (fst (Verify sample_hash sample_E sample_cos [] (replicate 64 0 @ [2]))) = [2]"
    by (simp add: sample_Mask_2)
  have f: "Mask (fst (Verify sample_hash sample_E sample_cos [] (replicate 64 0 @ [2])))
       = drop 64 (replicate 64 0 @ [2])"
    using t2 4 p by blast
  from 1 2 3 4 a b c d e f show ?thesis by blast
qed

lemma fst_VerifyPart [simp]:
  "fst (VerifyPart sha512 E cos message aggR signer indR indS) = cos"
proof -
  obtain c ok where v: "verify sha512 E cos message aggR indR indS (keys cos ! nat signer) = (c, ok)"
    by (cases "verify sha512 E cos message aggR indR indS (keys cos ! nat signer)")
  then have "c = cos"
    using fst_verify [of sha512 E cos message aggR indR indS "keys cos ! nat signer"] by simp
  with v show ?thesis by (simp add: VerifyPart_def)
qed

text \<open>
  C9. The negation in verify is applied to the function's own copy of the group element:
  verify and VerifyPart leave the set as it was, whatever they return, and the set that
  Verify leaves is the one it had before the check, that of SetMask when the length is
  right. So the cached aggregate is still the sum of the enabled keys afterwards.
\<close>

theorem verify_leaves_aggregate:
  "fst (verify sha512 E cos message aggR sigR sigS sigA) = cos
   \<and> fst (VerifyPart sha512 E cos message aggR signer indR indS) = cos
   \<and> fst (Verify sha512 E cos message sig)
       = (if length sig = 64 + MaskLen cos then SetMask cos (drop 64 sig) else cos)
   \<and> (aggr_ok cos \<longrightarrow>
        aggr_ok (fst (VerifyPart sha512 E cos message aggR signer indR indS))
        \<and> aggr_ok (fst (Verify sha512 E cos message sig)))
   \<and> (length sig = 64 + MaskLen cos \<longrightarrow> aggr_ok (fst (Verify sha512 E cos message sig)))"
  by (simp add: fst_Verify aggr_ok_SetMask)

theorem verify_leaves_aggregate_witness:
  "aggr_ok sample_cos
   \<and> fst (VerifyPart sample_hash sample_E sample_cos [] (replicate 32 0) 1
            (replicate 32 0) (replicate 32 0)) = sample_cos
   \<and> aggr_ok (fst (VerifyPart sample_hash sample_E sample_cos [] (replicate 32 0) 1
            (replicate 32 0) (replicate 32 0)))
   \<and> length (replicate 64 (0 :: byte) @ [2]) = 64 + MaskLen sample_cos
   \<and> aggr_ok (fst (Verify sample_hash sample_E sample_cos [] (replicate 64 0 @ [2])))
   \<and> aggr (fst (Verify sample_hash sample_E sample_cos [] (replicate 64 0 @ [2]))) = 10"
proof -
  have 4: "length (replicate 64 (0 :: byte) @ [2]) = 64 + MaskLen sample_cos"
    by (simp add: sample_MaskLen)
  note t = verify_leaves_aggregate [of sample_hash sample_E sample_cos "[]" "replicate 32 0"
      "replicate 32 0" "replicate 32 0" 0 1 "replicate 32 0" "replicate 32 0"
      "replicate 64 0 @ [2]"]
  have v: "fst (Verify sample_hash sample_E sample_cos [] (replicate 64 0 @ [2]))
      = SetMask sample_cos (drop 64 (replicate 64 0 @ [2]))"
    using t 4 by simp
  then have a: "aggr (fst (Verify sample_hash sample_E sample_cos [] (replicate 64 0 @ [2]))) = 10"
    by (simp add: sample_SetMask_2)
  from t aggr_ok_sample_cos 4 a show ?thesis by blast
qed

end
